theory Spec2Isabelle
  imports Main "HOL-Library.Sublist"
begin

section \<open>Python string operations used by transcribe.py\<close>

text \<open>
  A Python \<open>str\<close> is modelled as a \<open>string\<close>; every \<open>char\<close> stands for one code
  point in the range 0..255. \<open>isspace\<close> lists the code points of that range for which
  \<open>str.isspace\<close> holds; they are the characters removed by \<open>str.strip()\<close>.
\<close>

definition isspace :: "char \<Rightarrow> bool" where
  "isspace c = (c \<in> {CHR 0x09, CHR 0x0A, CHR 0x0B, CHR 0x0C, CHR 0x0D, CHR 0x1C, CHR 0x1D,
                     CHR 0x1E, CHR 0x1F, CHR 0x20, CHR 0x85, CHR 0xA0})"

definition lstrip :: "string \<Rightarrow> string" where
  "lstrip s = dropWhile isspace s"

definition rstrip :: "string \<Rightarrow> string" where
  "rstrip s = rev (dropWhile isspace (rev s))"

definition strip :: "string \<Rightarrow> string" where
  "strip s = rstrip (lstrip s)"

text \<open>\<open>s.startswith(ps)\<close> with a tuple \<open>ps\<close> of prefixes.\<close>

definition startswith :: "string \<Rightarrow> string list \<Rightarrow> bool" where
  "startswith s ps = list_ex (\<lambda>p. prefix p s) ps"

text \<open>\<open>sub in s\<close> for strings.\<close>

fun contains :: "string \<Rightarrow> string \<Rightarrow> bool" where
  "contains [] sub = (sub = [])"
| "contains (c # cs) sub = (prefix sub (c # cs) \<or> contains cs sub)"

text \<open>
  \<open>s.split(sep)\<close>: the pieces between the non-overlapping occurrences of \<open>sep\<close>, found
  from the left. Python raises ValueError for an empty separator; every separator in
  transcribe.py is a non-empty literal, and the model returns \<open>[s]\<close> for an empty one.
\<close>

fun split_str :: "string \<Rightarrow> string \<Rightarrow> string list" where
  "split_str [] sep = [ [] ]"
| "split_str (c # cs) sep =
     (if sep \<noteq> [] \<and> prefix sep (c # cs)
      then [] # split_str (drop (length sep) (c # cs)) sep
      else (case split_str cs sep of
              [] \<Rightarrow> [ [c] ]
            | w # ws \<Rightarrow> (c # w) # ws))"

text \<open>\<open>sep.join(xs)\<close>.\<close>

fun join :: "string \<Rightarrow> string list \<Rightarrow> string" where
  "join sep [] = []"
| "join sep [x] = x"
| "join sep (x # y # ys) = x @ sep @ join sep (y # ys)"

text \<open>
  \<open>str.lower()\<close> on the code points 0..255: the letters A..Z and the upper-case letters
  0xC0..0xDE other than the multiplication sign 0xD7 move up by 32.
\<close>

definition lower_char :: "char \<Rightarrow> char" where
  "lower_char c =
     (let n = (of_char c :: nat)
      in if (65 \<le> n \<and> n \<le> 90) \<or> (192 \<le> n \<and> n \<le> 222 \<and> n \<noteq> 215)
         then char_of (n + 32) else c)"

definition lower :: "string \<Rightarrow> string" where
  "lower s = map lower_char s"

definition newline :: string where
  "newline = [CHR 0x0A]"

section \<open>Output normalization in WhisperCppTranscriber.transcribe_file\<close>

definition log_prefixes :: "string list" where
  "log_prefixes = [''whisper_'', ''ggml_'', ''main:'', ''output_'', ''log_mel_spectrogram'',
                   ''encode_fallback'']"

definition progress_string_marker :: string where
  "progress_string_marker = ''whisper_print_progress_callback''"

text \<open>
  The loop \<open>for line in lines\<close> of transcribe_file, with the list \<open>transcript_lines\<close>
  it appends to as the accumulator.
\<close>

fun clean_lines :: "string list \<Rightarrow> string list \<Rightarrow> string list" where
  "clean_lines [] transcript_lines = transcript_lines"
| "clean_lines (line # lines) transcript_lines =
     (if startswith (strip line) log_prefixes then clean_lines lines transcript_lines
      else (let cleaned_line = hd (split_str line progress_string_marker)
            in if strip cleaned_line \<noteq> []
               then clean_lines lines (transcript_lines @ [cleaned_line])
               else clean_lines lines transcript_lines))"

text \<open>The value of \<open>text\<close> computed from \<open>output_capture\<close>.\<close>

definition normalize_text :: "string \<Rightarrow> string" where
  "normalize_text output_capture =
     strip (join newline (clean_lines (split_str (strip output_capture) newline) []))"

text \<open>
  The loop \<open>for line in output_capture.split('\n')\<close> that looks for the language, left
  by \<open>break\<close> at the first matching line.
\<close>

fun find_language :: "string list \<Rightarrow> string \<Rightarrow> string" where
  "find_language [] language = language"
| "find_language (line # lines) language =
     (if contains (lower line) ''detected language:''
      then strip (last (split_str line '':''))
      else find_language lines language)"

definition detect_language :: "string \<Rightarrow> string" where
  "detect_language output_capture =
     (if contains (lower output_capture) ''detected language:''
      then find_language (split_str output_capture newline) ''unknown''
      else ''unknown'')"

section \<open>Paths\<close>

text \<open>
  A \<open>pathlib.Path\<close> on a POSIX host, as pathlib parses it: the anchor (empty for a
  relative path, one or two slashes otherwise) and the components after the anchor.
\<close>

record path =
  anchor :: string
  parts :: "string list"

text \<open>\<open>Path(s)\<close>: empty components and \<open>.\<close> components are dropped.\<close>

definition Path :: "string \<Rightarrow> path" where
  "Path s =
     \<lparr>anchor = (if prefix ''/'' s
                then (if prefix ''//'' s \<and> \<not> prefix ''///'' s then ''//'' else ''/'')
                else []),
      parts = filter (\<lambda>x. x \<noteq> [] \<and> x \<noteq> ''.'') (split_str s ''/'')\<rparr>"

text \<open>\<open>str(p)\<close>.\<close>

definition str_path :: "path \<Rightarrow> string" where
  "str_path p =
     (if anchor p = [] \<and> parts p = [] then ''.'' else anchor p @ join ''/'' (parts p))"

definition path_name :: "path \<Rightarrow> string" where
  "path_name p = (if parts p = [] then [] else last (parts p))"

definition path_parent :: "path \<Rightarrow> path" where
  "path_parent p = p\<lparr>parts := butlast (parts p)\<rparr>"

text \<open>\<open>s.rfind(c)\<close>: the index of the last occurrence of \<open>c\<close>, or -1.\<close>

definition rfind :: "string \<Rightarrow> char \<Rightarrow> int" where
  "rfind s c =
     (if c \<in> set s
      then int (length s) - 1 - int (length (takeWhile (\<lambda>x. x \<noteq> c) (rev s)))
      else - 1)"

text \<open>\<open>p.suffix\<close> and \<open>p.stem\<close>, as pathlib computes them from the name.\<close>

definition path_suffix :: "path \<Rightarrow> string" where
  "path_suffix p =
     (let name = path_name p; i = rfind name CHR ''.''
      in if 0 < i \<and> i < int (length name) - 1 then drop (nat i) name else [])"

definition path_stem :: "path \<Rightarrow> string" where
  "path_stem p =
     (let name = path_name p; i = rfind name CHR ''.''
      in if 0 < i \<and> i < int (length name) - 1 then take (nat i) name else name)"

text \<open>\<open>p / s\<close> for a string \<open>s\<close>: an absolute \<open>s\<close> replaces \<open>p\<close>.\<close>

definition truediv :: "path \<Rightarrow> string \<Rightarrow> path" where
  "truediv p s =
     (let q = Path s
      in if anchor q \<noteq> [] then q else \<lparr>anchor = anchor p, parts = parts p @ parts q\<rparr>)"

section \<open>Exceptions, configuration, environment\<close>

datatype exn =
    TranscriptionError string
  | FileNotFoundError string
  | ValueError string
  | OSError string
  | UnicodeDecodeError string

text \<open>\<open>str(e)\<close> of an exception: its message.\<close>

fun str_exn :: "exn \<Rightarrow> string" where
  "str_exn (TranscriptionError m) = m"
| "str_exn (FileNotFoundError m) = m"
| "str_exn (ValueError m) = m"
| "str_exn (OSError m) = m"
| "str_exn (UnicodeDecodeError m) = m"

text \<open>\<open>p.with_suffix(sfx)\<close> for a suffix that starts with a dot, as \<open>'.txt'\<close> does.\<close>

definition with_suffix :: "path \<Rightarrow> string \<Rightarrow> exn + path" where
  "with_suffix p sfx =
     (let name = path_name p
      in if name = [] then Inl (ValueError (''PosixPath('' @ [CHR 0x27] @ str_path p @ [CHR 0x27]
                                 @ '') has an empty name''))
         else Inr (p\<lparr>parts := butlast (parts p) @ [path_stem p @ sfx]\<rparr>))"

record transcription_config =
  model_name :: string
  include_timestamps :: bool
  batch_mode :: bool
  custom_output :: "string option"

text \<open>
  What \<open>subprocess\<close> hands back for one run of whisper-cli. In verbose mode the process
  is started with \<open>stderr=STDOUT\<close>, so \<open>stdout\<close> holds both streams there.
\<close>

record completed_process =
  returncode :: int
  stdout :: string
  stderr :: string

text \<open>
  The host as the program sees it.
  \<^item> \<open>path_exists\<close>, \<open>path_is_file\<close>, \<open>readable\<close>: the file-system tests of
    validate_input_files.
  \<^item> \<open>extensions_order\<close>: the order in which this run of the interpreter iterates over
    the set SUPPORTED_EXTENSIONS (Python leaves it open); only the text of one error
    message depends on it.
  \<^item> \<open>stat_error\<close>: for each path the message of the OSError that \<open>path.stat()\<close> raises
    in get_audio_info, if it raises.
  \<^item> \<open>run_whisper\<close>: the run of whisper-cli for an input file, with
    \<open>include_timestamps\<close> and \<open>verbose\<close>, which select the command-line flags. It gives
    the completed process with its return code, or the exception that \<open>subprocess\<close>
    itself raises: an OSError when the program cannot be started, a UnicodeDecodeError
    when the output is not UTF-8 (silent mode decodes strictly).
  \<^item> \<open>open_error\<close>: for each path the message of the OSError that \<open>open(path, 'w')\<close>
    raises there, if it raises.
\<close>

record environment =
  path_exists :: "path \<Rightarrow> bool"
  path_is_file :: "path \<Rightarrow> bool"
  readable :: "path \<Rightarrow> bool"
  extensions_order :: "string list"
  stat_error :: "path \<Rightarrow> string option"
  run_whisper :: "path \<Rightarrow> bool \<Rightarrow> bool \<Rightarrow> exn + completed_process"
  open_error :: "path \<Rightarrow> string option"

text \<open>Truth value of an \<open>Optional[str]\<close>, and its string.\<close>

fun truthy :: "string option \<Rightarrow> bool" where
  "truthy None = False"
| "truthy (Some s) = (s \<noteq> [])"

fun opt_str :: "string option \<Rightarrow> string" where
  "opt_str None = []"
| "opt_str (Some s) = s"

text \<open>\<open>str(n)\<close> for an integer.\<close>

fun str_nat :: "nat \<Rightarrow> string" where
  "str_nat n = (if n < 10 then [char_of (48 + n)]
                else str_nat (n div 10) @ [char_of (48 + n mod 10)])"

declare str_nat.simps [simp del]

definition str_int :: "int \<Rightarrow> string" where
  "str_int i = (if i < 0 then CHR ''-'' # str_nat (nat (- i)) else str_nat (nat i))"

section \<open>FileManager\<close>

text \<open>
  SUPPORTED_EXTENSIONS is a Python set: the list is used for membership only, and the
  error message joins the members in the order \<open>extensions_order\<close> of the environment.
\<close>

definition SUPPORTED_EXTENSIONS :: "string list" where
  "SUPPORTED_EXTENSIONS = [''.mp3'', ''.wav'', ''.m4a'', ''.flac'', ''.ogg'', ''.wma'']"

fun validate_loop :: "environment \<Rightarrow> string list \<Rightarrow> path list \<Rightarrow> exn + path list" where
  "validate_loop env [] validated_files = Inr validated_files"
| "validate_loop env (file_path # file_paths) validated_files =
     (let path = Path file_path
      in if \<not> path_exists env path
         then Inl (FileNotFoundError (''File not found: '' @ file_path))
         else if \<not> path_is_file env path
         then Inl (ValueError (''Path is not a file: '' @ file_path))
         else if lower (path_suffix path) \<notin> set SUPPORTED_EXTENSIONS
         then Inl (ValueError (''Unsupported file format: '' @ path_suffix path
                     @ ''. Supported formats: '' @ join '', '' (extensions_order env)))
         else if \<not> readable env path
         then Inl (ValueError (''File is not readable: '' @ file_path))
         else validate_loop env file_paths (validated_files @ [path]))"

definition validate_input_files :: "environment \<Rightarrow> string list \<Rightarrow> exn + path list" where
  "validate_input_files env file_paths = validate_loop env file_paths []"

text \<open>
  The parameters custom_output, model_name and include_timestamps are written
  \<open>custom_out\<close>, \<open>model\<close> and \<open>include_ts\<close>, apart from the fields of the configuration.
\<close>

definition generate_output_path ::
    "path \<Rightarrow> string option \<Rightarrow> string option \<Rightarrow> bool \<Rightarrow> exn + path" where
  "generate_output_path input_path custom_out model include_ts =
     (if truthy custom_out then Inr (Path (opt_str custom_out))
      else (let stem = path_stem input_path;
                suffixes = (if truthy model then [opt_str model] else [])
                           @ (if include_ts then [''timestamps''] else [])
            in if suffixes \<noteq> []
               then Inr (truediv (path_parent input_path)
                           (stem @ ''-'' @ join ''-'' suffixes @ ''.txt''))
               else with_suffix input_path ''.txt''))"

section \<open>WhisperCppTranscriber.transcribe_file\<close>

text \<open>
  The result dictionary; process_files adds the two paths. The elapsed time is left
  out, as is everything the function prints.
\<close>

record transcription =
  r_text :: string
  r_language :: string

record result = transcription +
  r_input_file :: path
  r_output_file :: path

text \<open>
  The message of the TranscriptionError raised for a CalledProcessError: the return code,
  and the captured output when it is not blank.
\<close>

definition error_msg :: "int \<Rightarrow> string \<Rightarrow> string" where
  "error_msg rc out =
     ''whisper.cpp failed with return code '' @ str_int rc
     @ (if out \<noteq> [] \<and> strip out \<noteq> [] then '':'' @ newline @ strip out else [])"

text \<open>
  transcribe_file. The OSError of \<open>stat\<close> in get_audio_info is raised before the \<open>try\<close>.
  Inside it only CalledProcessError is caught, that is a non-zero return code, and raised
  again as a TranscriptionError; any other exception of the run leaves the function as
  it is. With return code 0 the captured output is normalized. The parameter
  include_timestamps is written \<open>include_ts\<close>.
\<close>

definition transcribe_file ::
    "environment \<Rightarrow> path \<Rightarrow> bool \<Rightarrow> bool \<Rightarrow> exn + transcription" where
  "transcribe_file env input_path include_ts verbose =
     (case stat_error env input_path of
        Some m \<Rightarrow> Inl (OSError m)
      | None \<Rightarrow>
          (case run_whisper env input_path include_ts verbose of
             Inl e \<Rightarrow> Inl e
           | Inr p \<Rightarrow>
               if returncode p \<noteq> 0
               then Inl (TranscriptionError (error_msg (returncode p) (stdout p)))
               else (let output_capture = (if verbose then stdout p else stdout p @ stderr p)
                     in Inr \<lparr>r_text = normalize_text output_capture,
                             r_language = detect_language output_capture\<rparr>)))"

section \<open>TranscriptionService.process_files\<close>

text \<open>
  What a run leaves behind besides its return value: the input files handed to
  transcribe_file, in order, and the lines printed to standard error.
\<close>

record run_trace =
  attempted :: "path list"
  err_lines :: "string list"

definition no_trace :: run_trace where
  "no_trace = \<lparr>attempted = [], err_lines = []\<rparr>"

text \<open>The body of the \<open>try\<close> in the loop: the result for one file, or the exception.\<close>

definition try_body ::
    "environment \<Rightarrow> transcription_config \<Rightarrow> bool \<Rightarrow> path \<Rightarrow> exn + result" where
  "try_body env config verbose input_path =
     (case transcribe_file env input_path (include_timestamps config) verbose of
        Inl e \<Rightarrow> Inl e
      | Inr r \<Rightarrow>
          (case generate_output_path input_path
                  (if \<not> batch_mode config then custom_output config else None)
                  (Some (model_name config)) (include_timestamps config) of
             Inl e \<Rightarrow> Inl e
           | Inr out \<Rightarrow>
               Inr \<lparr>r_text = r_text r, r_language = r_language r,
                    r_input_file = input_path, r_output_file = out\<rparr>))"

text \<open>
  The loop over \<open>validated_files\<close>. \<open>except TranscriptionError\<close> catches that
  exception only: it is printed, then raised again unless batch_mode is set. Any other
  exception leaves the loop as it is.
\<close>

fun process_loop ::
    "environment \<Rightarrow> transcription_config \<Rightarrow> bool \<Rightarrow> path list \<Rightarrow> result list \<Rightarrow> run_trace
     \<Rightarrow> (exn + result list) \<times> run_trace" where
  "process_loop env config verbose [] results tr = (Inr results, tr)"
| "process_loop env config verbose (input_path # rest) results tr =
     (let tr1 = tr\<lparr>attempted := attempted tr @ [input_path]\<rparr>
      in case try_body env config verbose input_path of
           Inr r \<Rightarrow> process_loop env config verbose rest (results @ [r]) tr1
         | Inl (TranscriptionError m) \<Rightarrow>
             (let tr2 = tr1\<lparr>err_lines := err_lines tr1 @ [''Error: '' @ m]\<rparr>
              in if \<not> batch_mode config then (Inl (TranscriptionError m), tr2)
                 else process_loop env config verbose rest results tr2)
         | Inl e \<Rightarrow> (Inl e, tr1))"

text \<open>
  The sum \<open>sum(f.stat().st_size for f in validated_files)\<close> that process_files prints in
  verbose mode: the OSError of the first \<open>stat\<close> that raises, if one does.
\<close>

fun total_size_error :: "environment \<Rightarrow> path list \<Rightarrow> exn option" where
  "total_size_error env [] = None"
| "total_size_error env (f # fs) =
     (case stat_error env f of
        Some m \<Rightarrow> Some (OSError m)
      | None \<Rightarrow> total_size_error env fs)"

text \<open>
  process_files: validation of the whole list, in verbose mode the total size, then the
  loop. An exception of the first two steps is raised outside the loop.
\<close>

definition process_files ::
    "environment \<Rightarrow> transcription_config \<Rightarrow> bool \<Rightarrow> string list
     \<Rightarrow> (exn + result list) \<times> run_trace" where
  "process_files env config verbose input_files =
     (case validate_input_files env input_files of
        Inl e \<Rightarrow> (Inl e, no_trace)
      | Inr validated_files \<Rightarrow>
          (case (if verbose then total_size_error env validated_files else None) of
             Some e \<Rightarrow> (Inl e, no_trace)
           | None \<Rightarrow> process_loop env config verbose validated_files [] no_trace))"

section \<open>TranscriptionService.save_results\<close>

text \<open>The files written, by the string of their path, and the lines printed.\<close>

record disk =
  files :: "string \<Rightarrow> string option"
  printed :: "string list"

text \<open>
  The loop of _save_individual_results. Any exception in the body is raised again as a
  TranscriptionError; the only one the body can raise here is the OSError of \<open>open\<close>.
\<close>

fun save_individual_results ::
    "environment \<Rightarrow> result list \<Rightarrow> disk \<Rightarrow> (exn + unit) \<times> disk" where
  "save_individual_results env [] d = (Inr (), d)"
| "save_individual_results env (r # results) d =
     (if r_text r \<noteq> []
      then (case open_error env (r_output_file r) of
              Some e \<Rightarrow>
                (Inl (TranscriptionError
                        (''Failed to save '' @ str_path (r_output_file r) @ '': '' @ e)), d)
            | None \<Rightarrow>
                save_individual_results env results
                  \<lparr>files = (files d)(str_path (r_output_file r) \<mapsto> r_text r @ newline),
                   printed = printed d @ [''Saved: '' @ str_path (r_output_file r)]\<rparr>)
      else save_individual_results env results
             (d\<lparr>printed := printed d
                  @ [''Warning: No text to save for '' @ str_path (r_input_file r)]\<rparr>))"

text \<open>
  The loop \<open>for i, result in enumerate(results)\<close> of _save_concatenated_results: \<open>n\<close> is
  \<open>len(results)\<close> and \<open>f\<close> what has been written to the file so far.
\<close>

definition divider :: string where
  "divider = newline @ replicate 50 CHR ''='' @ newline @ newline"

fun write_entries :: "result list \<Rightarrow> int \<Rightarrow> int \<Rightarrow> string \<Rightarrow> string" where
  "write_entries [] i n f = f"
| "write_entries (r # results) i n f =
     write_entries results (i + 1) n
       (f @ ''=== '' @ path_name (r_input_file r) @ '' ==='' @ newline
          @ r_text r @ newline
          @ (if i < n - 1 then divider else []))"

definition save_concatenated_results ::
    "environment \<Rightarrow> string \<Rightarrow> result list \<Rightarrow> disk \<Rightarrow> (exn + unit) \<times> disk" where
  "save_concatenated_results env custom_out results d =
     (let output_file = Path custom_out
      in case open_error env output_file of
           Some e \<Rightarrow>
             (Inl (TranscriptionError
                     (''Failed to save concatenated results to '' @ str_path output_file
                      @ '': '' @ e)), d)
         | None \<Rightarrow>
             (Inr (),
              \<lparr>files = (files d)(str_path output_file \<mapsto>
                          write_entries results 0 (int (length results)) []),
               printed = printed d
                 @ [''Saved concatenated results: '' @ str_path output_file]\<rparr>))"

definition save_results ::
    "environment \<Rightarrow> transcription_config \<Rightarrow> result list \<Rightarrow> disk \<Rightarrow> (exn + unit) \<times> disk" where
  "save_results env config results d =
     (if results = [] then (Inr (), d\<lparr>printed := printed d @ [''No results to save.'']\<rparr>)
      else (case (if batch_mode config \<and> truthy (custom_output config)
                  then save_concatenated_results env (opt_str (custom_output config)) results d
                  else save_individual_results env results d) of
              (Inl e, d') \<Rightarrow>
                (Inl (TranscriptionError (''Failed to save results: '' @ str_exn e)), d')
            | (Inr u, d') \<Rightarrow> (Inr u, d')))"

section \<open>Notions used in the statements and proofs\<close>

text \<open>Strings of white space only, and strings without white space.\<close>

definition allspace :: "string \<Rightarrow> bool" where
  "allspace s = list_all isspace s"

definition nospace :: "string \<Rightarrow> bool" where
  "nospace s = list_all (\<lambda>c. \<not> isspace c) s"

text \<open>A function applied to the last, or to the first, element of a list.\<close>

fun map_last :: "('a \<Rightarrow> 'a) \<Rightarrow> 'a list \<Rightarrow> 'a list" where
  "map_last f [] = []"
| "map_last f [x] = [f x]"
| "map_last f (x # y # ys) = x # map_last f (y # ys)"

fun map_first :: "('a \<Rightarrow> 'a) \<Rightarrow> 'a list \<Rightarrow> 'a list" where
  "map_first f [] = []"
| "map_first f (x # xs) = f x # xs"

text \<open>What one pass of the loop \<open>clean_lines\<close> appends for a line.\<close>

definition keep_line :: "string \<Rightarrow> string list" where
  "keep_line line =
     (if startswith (strip line) log_prefixes then []
      else (let cleaned_line = hd (split_str line progress_string_marker)
            in if strip cleaned_line \<noteq> [] then [cleaned_line] else []))"

text \<open>
  A retained line: no line break, not blank, no progress marker, and no log prefix at
  the start of its trimmed form.
\<close>

definition clean_ok :: "string \<Rightarrow> bool" where
  "clean_ok l \<longleftrightarrow> CHR 0x0A \<notin> set l \<and> \<not> allspace l \<and> \<not> sublist progress_string_marker l
                 \<and> \<not> startswith (strip l) log_prefixes"

text \<open>The lines of a text after \<open>strip\<close>: the first loses its leading, the last its
  trailing white space.\<close>

definition trim_ends :: "string list \<Rightarrow> string list" where
  "trim_ends ls = map_last rstrip (map_first lstrip ls)"

text \<open>The text after the last occurrence of a character (all of it when there is none).\<close>

definition after_last :: "char \<Rightarrow> string \<Rightarrow> string" where
  "after_last c s = rev (takeWhile (\<lambda>x. x \<noteq> c) (rev s))"

text \<open>
  The specification's wording of the normalizer, to be compared with \<open>normalize_text\<close>:
  a line is cut at the first occurrence of the marker, only the part before it kept.
\<close>

fun truncate_at :: "string \<Rightarrow> string \<Rightarrow> string" where
  "truncate_at [] marker = []"
| "truncate_at (c # cs) marker =
     (if prefix marker (c # cs) then [] else c # truncate_at cs marker)"

text \<open>
  The algorithm of the specification on a sequence of lines: (a) drop the lines that start
  with a log prefix, (b) cut the others at the marker, (c) keep those that are not blank;
  join with line breaks and trim.
\<close>

definition normalize_spec :: "string list \<Rightarrow> string" where
  "normalize_spec lines =
     strip (join newline
       (filter (\<lambda>l. strip l \<noteq> [])
          (map (\<lambda>l. truncate_at l progress_string_marker)
             (filter (\<lambda>l. \<not> startswith l log_prefixes) lines))))"

text \<open>The same with step (a) testing the trimmed line.\<close>

definition normalize_trimmed_prefix :: "string list \<Rightarrow> string" where
  "normalize_trimmed_prefix lines =
     strip (join newline
       (filter (\<lambda>l. strip l \<noteq> [])
          (map (\<lambda>l. truncate_at l progress_string_marker)
             (filter (\<lambda>l. \<not> startswith (strip l) log_prefixes) lines))))"

text \<open>The loop of transcribe_file run on the lines of a string that was not trimmed first.\<close>

definition norm_of :: "string \<Rightarrow> string" where
  "norm_of s = strip (join newline (concat (map keep_line (split_str s newline))))"

text \<open>
  A file that passes the four checks of validate_input_files, and the exception the
  first failing check raises for one that does not.
\<close>

definition file_valid :: "environment \<Rightarrow> string \<Rightarrow> bool" where
  "file_valid env file_path =
     (let path = Path file_path
      in path_exists env path \<and> path_is_file env path
         \<and> lower (path_suffix path) \<in> set SUPPORTED_EXTENSIONS \<and> readable env path)"

definition validation_error :: "environment \<Rightarrow> string \<Rightarrow> exn" where
  "validation_error env file_path =
     (let path = Path file_path
      in if \<not> path_exists env path then FileNotFoundError (''File not found: '' @ file_path)
         else if \<not> path_is_file env path then ValueError (''Path is not a file: '' @ file_path)
         else if lower (path_suffix path) \<notin> set SUPPORTED_EXTENSIONS
         then ValueError (''Unsupported file format: '' @ path_suffix path
                @ ''. Supported formats: '' @ join '', '' (extensions_order env))
         else ValueError (''File is not readable: '' @ file_path))"




text \<open>The path with the name \<open>n\<close> in the directory of \<open>p\<close>.\<close>

definition sibling :: "path \<Rightarrow> string \<Rightarrow> path" where
  "sibling p n = \<lparr>anchor = anchor p, parts = butlast (parts p) @ [n]\<rparr>"

text \<open>One entry of the concatenated file: the header line and the text.\<close>

definition entry :: "result \<Rightarrow> string" where
  "entry r = ''=== '' @ path_name (r_input_file r) @ '' ==='' @ newline @ r_text r @ newline"

text \<open>
  A host for the examples: every file exists but \<open>missing.mp3\<close>; whisper-cli fails on
  \<open>b.mp3\<close>, prints bytes that are not UTF-8 for \<open>garbled.mp3\<close>, no transcript line for
  \<open>silence.mp3\<close> and one line for any other file.
\<close>

definition demo_env :: environment where
  "demo_env =
     \<lparr>path_exists = (\<lambda>p. path_name p \<noteq> ''missing.mp3''),
      path_is_file = (\<lambda>p. True),
      readable = (\<lambda>p. True),
      extensions_order = [''.wav'', ''.mp3'', ''.ogg'', ''.wma'', ''.flac'', ''.m4a''],
      stat_error = (\<lambda>p. None),
      run_whisper = (\<lambda>p ts v.
         if path_name p = ''b.mp3''
         then Inr \<lparr>returncode = 1, stdout = ''bad audio'', stderr = []\<rparr>
         else if path_name p = ''garbled.mp3'' \<and> \<not> v
         then Inl (UnicodeDecodeError ''utf-8 codec cannot decode byte 0xff'')
         else if path_name p = ''silence.mp3''
         then Inr \<lparr>returncode = 0, stdout = [], stderr = ''main: processing''\<rparr>
         else Inr \<lparr>returncode = 0, stdout = '' Hello from '' @ path_name p @ newline,
                   stderr = ''whisper_init: ok''\<rparr>),
      open_error = (\<lambda>p. None)\<rparr>"

definition demo_config :: "bool \<Rightarrow> transcription_config" where
  "demo_config batch =
     \<lparr>model_name = ''base'', include_timestamps = False, batch_mode = batch,
      custom_output = Some ''all.txt''\<rparr>"

section \<open>Strings: trimming, splitting, joining\<close>

lemma contains_sublist: "contains s sub \<longleftrightarrow> sublist sub s"
  by (induction s) (auto simp: sublist_Cons_right)

lemma split_str_nonempty [simp]: "split_str s sep \<noteq> []"
  by (induction s sep rule: split_str.induct) (auto split: list.splits)

lemma hd_split_prefix: "prefix (hd (split_str s sep)) s"
  by (induction s sep rule: split_str.induct) (auto split: list.splits)

lemma hd_split_no_sep: "sep \<noteq> [] \<Longrightarrow> \<not> sublist sep (hd (split_str s sep))"
proof (induction s sep rule: split_str.induct)
  case (1 sep)
  then show ?case by simp
next
  case (2 c cs sep)
  show ?case
  proof (cases "prefix sep (c # cs)")
    case True
    with 2 show ?thesis by simp
  next
    case False
    obtain w ws where sp: "split_str cs sep = w # ws"
      by (cases "split_str cs sep") auto
    have pw: "prefix w cs" using hd_split_prefix[of cs sep] sp by simp
    have "\<not> sublist sep w" using 2 False sp by simp
    moreover have "\<not> prefix sep (c # w)"
      using False pw by (meson Cons_prefix_Cons prefix_order.trans)
    ultimately show ?thesis using False sp by (simp add: sublist_Cons_right)
  qed
qed

lemma lstrip_empty_iff: "lstrip s = [] \<longleftrightarrow> allspace s"
  by (simp add: lstrip_def allspace_def dropWhile_eq_Nil_conv list_all_iff)

lemma rstrip_empty_iff: "rstrip s = [] \<longleftrightarrow> allspace s"
  by (simp add: rstrip_def allspace_def dropWhile_eq_Nil_conv list_all_iff)

lemma allspace_append [simp]: "allspace (a @ b) \<longleftrightarrow> allspace a \<and> allspace b"
  by (simp add: allspace_def)

lemma allspace_Nil [simp]: "allspace []"
  by (simp add: allspace_def)

lemma lstrip_append: "\<not> allspace a \<Longrightarrow> lstrip (a @ b) = lstrip a @ b"
  by (auto simp: lstrip_def allspace_def list_all_iff dropWhile_append1)

lemma lstrip_append_space: "allspace a \<Longrightarrow> lstrip (a @ b) = lstrip b"
  by (auto simp: lstrip_def allspace_def list_all_iff dropWhile_append2)

lemma rstrip_append: "\<not> allspace b \<Longrightarrow> rstrip (a @ b) = a @ rstrip b"
  by (auto simp: rstrip_def allspace_def list_all_iff dropWhile_append1)

lemma rstrip_append_space: "allspace b \<Longrightarrow> rstrip (a @ b) = rstrip a"
proof -
  assume "allspace b"
  then have "\<And>x. x \<in> set (rev b) \<Longrightarrow> isspace x" by (simp add: allspace_def list_all_iff)
  then have "dropWhile isspace (rev b @ rev a) = dropWhile isspace (rev a)"
    by (rule dropWhile_append2)
  then show ?thesis by (simp add: rstrip_def)
qed

lemma lstrip_decomp: "\<exists>w. allspace w \<and> s = w @ lstrip s"
  by (rule exI[of _ "takeWhile isspace s"])
     (auto simp: lstrip_def allspace_def list_all_iff dest: set_takeWhileD)

lemma rstrip_decomp: "\<exists>w. allspace w \<and> s = rstrip s @ w"
proof -
  have "rev s = takeWhile isspace (rev s) @ dropWhile isspace (rev s)" by simp
  then have "s = rev (dropWhile isspace (rev s)) @ rev (takeWhile isspace (rev s))"
    by (metis rev_append rev_rev_ident)
  moreover have "allspace (rev (takeWhile isspace (rev s)))"
    by (auto simp: allspace_def list_all_iff dest: set_takeWhileD)
  ultimately show ?thesis unfolding rstrip_def by blast
qed

lemma allspace_lstrip [simp]: "allspace (lstrip s) \<longleftrightarrow> allspace s"
  by (metis allspace_append lstrip_decomp lstrip_empty_iff allspace_Nil)

lemma allspace_rstrip [simp]: "allspace (rstrip s) \<longleftrightarrow> allspace s"
  by (metis allspace_append rstrip_decomp rstrip_empty_iff allspace_Nil)

lemma strip_empty_iff: "strip s = [] \<longleftrightarrow> allspace s"
  by (simp add: strip_def rstrip_empty_iff)

lemma allspace_strip [simp]: "allspace (strip s) \<longleftrightarrow> allspace s"
  by (simp add: strip_def)

lemma lstrip_idem [simp]: "lstrip (lstrip s) = lstrip s"
  by (simp add: lstrip_def dropWhile_idem)

lemma rstrip_idem [simp]: "rstrip (rstrip s) = rstrip s"
  by (simp add: rstrip_def dropWhile_idem)

lemma lstrip_rstrip: "lstrip (rstrip s) = rstrip (lstrip s)"
proof (cases "allspace s")
  case True
  then show ?thesis
    by (metis allspace_lstrip allspace_rstrip lstrip_empty_iff rstrip_empty_iff)
next
  case False
  obtain w where w: "allspace w" "s = w @ lstrip s" using lstrip_decomp by blast
  have "rstrip s = w @ rstrip (lstrip s)"
    using rstrip_append[of "lstrip s" w] w False by simp
  moreover have "lstrip (rstrip (lstrip s)) = rstrip (lstrip s)"
  proof -
    obtain v where v: "allspace v" "lstrip s = rstrip (lstrip s) @ v" using rstrip_decomp by blast
    have ne: "\<not> allspace (rstrip (lstrip s))" using False by simp
    have "lstrip (lstrip s) = lstrip (rstrip (lstrip s)) @ v"
      using lstrip_append[OF ne, of v] v by simp
    then have "rstrip (lstrip s) @ v = lstrip (rstrip (lstrip s)) @ v" using v by simp
    then show ?thesis by simp
  qed
  ultimately show ?thesis using lstrip_append_space[OF w(1)] by simp
qed

lemma strip_idem [simp]: "strip (strip s) = strip s"
  by (simp add: strip_def lstrip_rstrip)

lemma strip_lstrip [simp]: "strip (lstrip s) = strip s"
  by (simp add: strip_def)

lemma strip_rstrip [simp]: "strip (rstrip s) = strip s"
  by (simp add: strip_def lstrip_rstrip)

lemma nospace_rstrip: "nospace p \<Longrightarrow> rstrip p = p"
proof -
  assume n: "nospace p"
  have "dropWhile isspace (rev p) = rev p"
  proof (cases "rev p")
    case Nil
    then show ?thesis by simp
  next
    case (Cons x xs)
    then have "x \<in> set p" by (metis list.set_intros(1) set_rev)
    then have "\<not> isspace x" using n by (simp add: nospace_def list_all_iff)
    then show ?thesis using Cons by simp
  qed
  then show ?thesis by (simp add: rstrip_def)
qed

lemma prefix_rstrip: "prefix (rstrip s) s"
  by (metis prefixI rstrip_decomp)

lemma suffix_lstrip: "suffix (lstrip s) s"
  by (metis suffixI lstrip_decomp)

lemma prefix_nospace_rstrip: "nospace p \<Longrightarrow> prefix p s \<Longrightarrow> prefix p (rstrip s)"
proof -
  assume n: "nospace p" and "prefix p s"
  then obtain t where s: "s = p @ t" by (auto simp: prefix_def)
  show ?thesis
  proof (cases "allspace t")
    case True
    then show ?thesis using s n by (simp add: rstrip_append_space nospace_rstrip)
  next
    case False
    then show ?thesis using s by (simp add: rstrip_append)
  qed
qed

lemma prefix_nospace_lstrip: "nospace p \<Longrightarrow> p \<noteq> [] \<Longrightarrow> prefix p s \<Longrightarrow> lstrip s = s"
proof -
  assume n: "nospace p" and ne: "p \<noteq> []" and "prefix p s"
  then obtain t where s: "s = p @ t" by (auto simp: prefix_def)
  obtain x xs where p: "p = x # xs" using ne by (cases p) auto
  then have "\<not> isspace x" using n by (simp add: nospace_def)
  then show ?thesis using s p by (simp add: lstrip_def)
qed

lemma prefix_nospace_strip:
  "nospace p \<Longrightarrow> p \<noteq> [] \<Longrightarrow> prefix p s \<Longrightarrow> prefix p (strip s)"
  by (simp add: strip_def prefix_nospace_lstrip prefix_nospace_rstrip)

lemma prefix_strip_extend:
  assumes n: "nospace p" and c: "\<not> allspace a" and p: "prefix p (strip a)"
  shows "prefix p (strip (a @ t))"
proof -
  have "prefix p (lstrip a)"
    using p prefix_rstrip[of "lstrip a"] unfolding strip_def by (rule prefix_order.trans)
  then have "prefix p (lstrip (a @ t))"
    using c by (simp add: lstrip_append)
  then show ?thesis unfolding strip_def using n by (rule prefix_nospace_rstrip[rotated])
qed

lemma log_prefixes_nospace: "list_all (\<lambda>p. p \<noteq> [] \<and> nospace p) log_prefixes"
  by (simp add: log_prefixes_def nospace_def isspace_def)

lemma marker_nospace: "progress_string_marker \<noteq> [] \<and> nospace progress_string_marker"
  by (simp add: progress_string_marker_def nospace_def isspace_def)

lemma startswith_strip:
  "startswith s log_prefixes \<Longrightarrow> startswith (strip s) log_prefixes"
  using log_prefixes_nospace
  by (auto simp: startswith_def list_ex_iff list_all_iff intro: prefix_nospace_strip)

lemma startswith_strip_extend:
  "\<not> allspace a \<Longrightarrow> startswith (strip a) log_prefixes \<Longrightarrow> startswith (strip (a @ t)) log_prefixes"
  using log_prefixes_nospace
  by (auto simp: startswith_def list_ex_iff list_all_iff intro: prefix_strip_extend)

lemma split1_none: "c \<notin> set a \<Longrightarrow> split_str a [c] = [a]"
  by (induction a) auto

lemma split1_append: "c \<notin> set a \<Longrightarrow> split_str (a @ c # b) [c] = a # split_str b [c]"
  by (induction a) auto

lemma split1_join:
  "ls \<noteq> [] \<Longrightarrow> \<forall>l\<in>set ls. c \<notin> set l \<Longrightarrow> split_str (join [c] ls) [c] = ls"
proof (induction "[c]" ls rule: join.induct)
  case 1
  then show ?case by simp
next
  case (2 x)
  then show ?case by (simp add: split1_none)
next
  case (3 x y ys)
  then show ?case using split1_append[of c x "join [c] (y # ys)"] by simp
qed

lemma split1_lines: "\<forall>l\<in>set (split_str s [c]). c \<notin> set l"
  by (induction s "[c]" rule: split_str.induct) (auto split: list.splits if_splits)

lemma join_Cons: "ls \<noteq> [] \<Longrightarrow> join sep (l # ls) = l @ sep @ join sep ls"
  by (cases ls) auto

lemma join_split1: "join [c] (split_str s [c]) = s"
proof (induction s "[c]" rule: split_str.induct)
  case 1
  then show ?case by simp
next
  case (2 d cs)
  show ?case
  proof (cases "d = c")
    case True
    then show ?thesis using 2 by (simp add: join_Cons)
  next
    case False
    obtain w ws where sp: "split_str cs [c] = w # ws"
      by (cases "split_str cs [c]") auto
    have "join [c] ((d # w) # ws) = d # join [c] (w # ws)" by (cases ws) auto
    then show ?thesis using 2 False sp by simp
  qed
qed

lemma clean_lines_keep: "clean_lines ls acc = acc @ concat (map keep_line ls)"
  by (induction ls arbitrary: acc) (auto simp: keep_line_def Let_def)

lemma keep_line_ok:
  assumes "CHR 0x0A \<notin> set L" and "l \<in> set (keep_line L)"
  shows "clean_ok l"
proof -
  from assms(2) have nl: "\<not> startswith (strip L) log_prefixes"
    and l: "l = hd (split_str L progress_string_marker)" and ne: "strip l \<noteq> []"
    by (auto simp: keep_line_def Let_def split: if_splits)
  have pre: "prefix l L" unfolding l by (rule hd_split_prefix)
  then obtain t where L: "L = l @ t" by (auto simp: prefix_def)
  have 1: "CHR 0x0A \<notin> set l" using assms(1) L by auto
  have 2: "\<not> allspace l" using ne by (simp add: strip_empty_iff)
  have 3: "\<not> sublist progress_string_marker l"
    unfolding l using marker_nospace by (intro hd_split_no_sep) simp
  have 4: "\<not> startswith (strip l) log_prefixes"
    using startswith_strip_extend[OF 2, of t] nl L by auto
  show ?thesis using 1 2 3 4 by (simp add: clean_ok_def)
qed

lemma sublist_trans: "sublist a b \<Longrightarrow> sublist b c \<Longrightarrow> sublist a c"
  by (rule sublist_order.order_trans)

lemma clean_ok_lstrip: "clean_ok l \<Longrightarrow> clean_ok (lstrip l)"
proof -
  assume a: "clean_ok l"
  have s: "sublist (lstrip l) l" using suffix_lstrip[of l] by (rule suffix_imp_sublist)
  have "set (lstrip l) \<subseteq> set l" using s by (rule set_mono_sublist)
  moreover have "\<not> sublist progress_string_marker (lstrip l)"
    using a s sublist_trans unfolding clean_ok_def by blast
  ultimately show ?thesis using a unfolding clean_ok_def by auto
qed

lemma clean_ok_rstrip: "clean_ok l \<Longrightarrow> clean_ok (rstrip l)"
proof -
  assume a: "clean_ok l"
  have s: "sublist (rstrip l) l" using prefix_rstrip[of l] by (rule prefix_imp_sublist)
  have "set (rstrip l) \<subseteq> set l" using s by (rule set_mono_sublist)
  moreover have "\<not> sublist progress_string_marker (rstrip l)"
    using a s sublist_trans unfolding clean_ok_def by blast
  ultimately show ?thesis using a unfolding clean_ok_def by auto
qed

lemma set_map_last: "set (map_last f xs) \<subseteq> set xs \<union> f ` set xs"
  by (induction f xs rule: map_last.induct) auto

lemma set_map_first: "set (map_first f xs) \<subseteq> set xs \<union> f ` set xs"
  by (cases xs) auto

lemma map_last_Nil_iff [simp]: "map_last f xs = [] \<longleftrightarrow> xs = []"
  by (induction f xs rule: map_last.induct) auto

lemma map_first_Nil_iff [simp]: "map_first f xs = [] \<longleftrightarrow> xs = []"
  by (cases xs) auto

lemma join_not_allspace: "\<forall>l\<in>set ls. \<not> allspace l \<Longrightarrow> ls \<noteq> [] \<Longrightarrow> \<not> allspace (join sep ls)"
  by (induction sep ls rule: join.induct) auto

lemma rstrip_join:
  "\<forall>l\<in>set ls. \<not> allspace l \<Longrightarrow> rstrip (join sep ls) = join sep (map_last rstrip ls)"
proof (induction sep ls rule: join.induct)
  case (1 sep)
  then show ?case by (simp add: rstrip_def)
next
  case (2 sep x)
  then show ?case by simp
next
  case (3 sep x y ys)
  have "\<not> allspace (join sep (y # ys))" using 3(2) by (intro join_not_allspace) auto
  then have "rstrip (x @ sep @ join sep (y # ys)) = x @ sep @ rstrip (join sep (y # ys))"
    using rstrip_append[of "join sep (y # ys)" "x @ sep"] by simp
  moreover have "map_last rstrip (y # ys) \<noteq> []" by simp
  ultimately show ?case using 3 by (simp add: join_Cons)
qed

lemma lstrip_join:
  "\<not> allspace l \<Longrightarrow> lstrip (join sep (l # ls)) = join sep (map_first lstrip (l # ls))"
  by (cases ls) (simp_all add: lstrip_append)

lemma strip_join:
  assumes "\<forall>l\<in>set ls. \<not> allspace l"
  shows "strip (join sep ls) = join sep (trim_ends ls)"
proof (cases ls)
  case Nil
  then show ?thesis by (simp add: strip_def lstrip_def rstrip_def trim_ends_def)
next
  case (Cons l ls')
  have "\<forall>x\<in>set (map_first lstrip ls). \<not> allspace x"
    using assms set_map_first[of lstrip ls] by auto
  then show ?thesis using assms Cons
    by (simp add: strip_def lstrip_join rstrip_join trim_ends_def del: map_first.simps)
qed

lemma trim_ends_ok:
  assumes "\<forall>l\<in>set ls. clean_ok l"
  shows "\<forall>l\<in>set (trim_ends ls). clean_ok l"
proof -
  have 1: "\<forall>l\<in>set (map_first lstrip ls). clean_ok l"
    using assms set_map_first[of lstrip ls] clean_ok_lstrip by blast
  show ?thesis unfolding trim_ends_def
    using 1 set_map_last[of rstrip "map_first lstrip ls"] clean_ok_rstrip by blast
qed

lemma trim_ends_Nil_iff [simp]: "trim_ends ls = [] \<longleftrightarrow> ls = []"
  by (simp add: trim_ends_def)

lemma lines_strip_join:
  assumes "\<forall>l\<in>set ls. clean_ok l" and "ls \<noteq> []"
  shows "split_str (strip (join newline ls)) newline = trim_ends ls"
proof -
  have "\<forall>l\<in>set ls. \<not> allspace l" using assms by (simp add: clean_ok_def)
  then have "strip (join newline ls) = join newline (trim_ends ls)" by (rule strip_join)
  moreover have "\<forall>l\<in>set (trim_ends ls). CHR 0x0A \<notin> set l"
    using trim_ends_ok[OF assms(1)] by (simp add: clean_ok_def)
  ultimately show ?thesis using assms(2) by (simp add: newline_def split1_join)
qed

lemma clean_lines_ok: "\<forall>l\<in>set (clean_lines (split_str s newline) []). clean_ok l"
  using split1_lines[of s "CHR 0x0A"]
  by (auto simp: clean_lines_keep newline_def intro: keep_line_ok)

lemma clean_ok_free:
  assumes "clean_ok r"
  shows "\<not> startswith r log_prefixes \<and> \<not> contains r progress_string_marker"
  using assms startswith_strip[of r] by (auto simp: clean_ok_def contains_sublist)

lemma normalized_lines:
  "split_str (normalize_text out) newline = [ [] ] \<or>
   (\<forall>r\<in>set (split_str (normalize_text out) newline). clean_ok r)"
proof (cases "clean_lines (split_str (strip out) newline) [] = []")
  case True
  then show ?thesis by (simp add: normalize_text_def strip_def lstrip_def rstrip_def)
next
  case False
  then show ?thesis
    using lines_strip_join[OF clean_lines_ok False] trim_ends_ok[OF clean_lines_ok]
    by (simp add: normalize_text_def)
qed

text \<open>
  C1: for every raw process output, no line of the normalized transcript text starts with
  one of the log prefixes, and no line contains the progress-callback marker.
\<close>

theorem normalized_text_clean:
  "\<forall>r\<in>set (split_str (normalize_text out) newline).
     \<not> startswith r log_prefixes \<and> \<not> contains r progress_string_marker"
proof -
  have e: "\<not> startswith [] log_prefixes \<and> \<not> contains [] progress_string_marker"
    by (simp add: startswith_def log_prefixes_def progress_string_marker_def)
  show ?thesis using normalized_lines[of out] e clean_ok_free by auto
qed

theorem normalized_text_clean_witness:
  "''Hello there '' \<in> set (split_str (normalize_text
       ''whisper_init: load\<newline> Hello there whisper_print_progress_callback: progress = 50%\<newline>  main: done\<newline>world \<newline>'') newline)
   \<and> \<not> startswith ''Hello there '' log_prefixes
   \<and> \<not> contains ''Hello there '' progress_string_marker"
proof -
  have m: "''Hello there '' \<in> set (split_str (normalize_text
       ''whisper_init: load\<newline> Hello there whisper_print_progress_callback: progress = 50%\<newline>  main: done\<newline>world \<newline>'') newline)"
    by code_simp
  show ?thesis
    using m normalized_text_clean[of
       "''whisper_init: load\<newline> Hello there whisper_print_progress_callback: progress = 50%\<newline>  main: done\<newline>world \<newline>''"]
    by blast
qed

lemma split_str_absent: "\<not> sublist sep s \<Longrightarrow> split_str s sep = [s]"
  by (induction s sep rule: split_str.induct) (auto simp: sublist_Cons_right)

lemma keep_line_clean_ok: "clean_ok r \<Longrightarrow> keep_line r = [r]"
  by (simp add: keep_line_def clean_ok_def split_str_absent strip_empty_iff)

lemma keep_lines_clean_ok: "\<forall>r\<in>set rs. clean_ok r \<Longrightarrow> concat (map keep_line rs) = rs"
  by (induction rs) (simp_all add: keep_line_clean_ok)

lemma normalize_text_Nil: "normalize_text [] = []"
  by (simp add: normalize_text_def strip_def lstrip_def rstrip_def startswith_def
      log_prefixes_def)

text \<open>
  C4: normalization is idempotent: normalizing the normalized transcript text of any raw
  output gives that text again.
\<close>

theorem normalize_text_idempotent: "normalize_text (normalize_text out) = normalize_text out"
proof (cases "clean_lines (split_str (strip out) newline) [] = []")
  case True
  then have "normalize_text out = []"
    by (simp add: normalize_text_def strip_def lstrip_def rstrip_def)
  then show ?thesis by (simp add: normalize_text_Nil)
next
  case False
  define ls where "ls = clean_lines (split_str (strip out) newline) []"
  have ok: "\<forall>l\<in>set ls. clean_ok l" unfolding ls_def by (rule clean_lines_ok)
  have T: "normalize_text out = strip (join newline ls)"
    by (simp add: normalize_text_def ls_def)
  have lines: "split_str (strip (join newline ls)) newline = trim_ends ls"
    using ok False unfolding ls_def by (intro lines_strip_join) simp_all
  have "clean_lines (trim_ends ls) [] = trim_ends ls"
    using trim_ends_ok[OF ok] by (simp add: clean_lines_keep keep_lines_clean_ok)
  moreover have "strip (join newline (trim_ends ls)) = strip (join newline ls)"
  proof -
    have "strip (join newline ls) = join newline (trim_ends ls)"
      using ok by (intro strip_join) (simp add: clean_ok_def)
    then show ?thesis using strip_idem[of "join newline ls"] by simp
  qed
  ultimately show ?thesis unfolding T
    by (simp add: normalize_text_def[of "strip (join newline ls)"] lines)
qed

theorem normalize_text_idempotent_witness:
  "normalize_text (normalize_text
       ''whisper_init: load\<newline> Hello there whisper_print_progress_callback: progress = 50%\<newline>  main: done\<newline>world \<newline>'')
   = ''Hello there \<newline>world''"
proof -
  have "normalize_text
       ''whisper_init: load\<newline> Hello there whisper_print_progress_callback: progress = 50%\<newline>  main: done\<newline>world \<newline>''
     = ''Hello there \<newline>world''"
    by code_simp
  then show ?thesis
    using normalize_text_idempotent[of
       "''whisper_init: load\<newline> Hello there whisper_print_progress_callback: progress = 50%\<newline>  main: done\<newline>world \<newline>''"]
    by simp
qed

lemma last_split1: "last (split_str l [c]) = after_last c l"
proof (induction l)
  case Nil
  then show ?case by (simp add: after_last_def)
next
  case (Cons d cs)
  show ?case
  proof (cases "d = c")
    case True
    then show ?thesis using Cons by (simp add: after_last_def takeWhile_tail)
  next
    case False
    obtain w ws where sp: "split_str cs [c] = w # ws"
      by (cases "split_str cs [c]") auto
    show ?thesis
    proof (cases "ws = []")
      case True
      have "cs = w" using join_split1[of c cs] sp True by simp
      moreover have "c \<notin> set w" using split1_lines[of cs c] sp by simp
      ultimately have "takeWhile (\<lambda>x. x \<noteq> c) (rev (d # cs)) = rev (d # cs)"
        using False by (intro takeWhile_eq_all_conv[THEN iffD2]) auto
      then have "after_last c (d # cs) = d # cs"
        unfolding after_last_def by (simp only: rev_rev_ident)
      moreover have "last (split_str (d # cs) [c]) = d # cs"
        using False sp True \<open>cs = w\<close> by simp
      ultimately show ?thesis by simp
    next
      case F2: False
      have "c \<in> set cs" using split1_none[of c cs] sp F2 by auto
      then have "takeWhile (\<lambda>x. x \<noteq> c) (rev cs @ [d]) = takeWhile (\<lambda>x. x \<noteq> c) (rev cs)"
        by (intro takeWhile_append1[of c]) auto
      then show ?thesis using False sp F2 Cons by (simp add: after_last_def)
    qed
  qed
qed

lemma sublist_join: "l \<in> set ls \<Longrightarrow> sublist l (join sep ls)"
proof (induction sep ls rule: join.induct)
  case (3 sep x y ys)
  show ?case
  proof (cases "l = x")
    case True
    then show ?thesis by simp
  next
    case False
    then have "sublist l (join sep (y # ys))" using 3 by simp
    then have "sublist l ((x @ sep) @ join sep (y # ys))"
      using sublist_append_leftI[of "join sep (y # ys)" "x @ sep"] sublist_trans by blast
    then show ?thesis by simp
  qed
qed simp_all

lemma sublist_split1: "l \<in> set (split_str s [c]) \<Longrightarrow> sublist l s"
  using sublist_join[of l "split_str s [c]" "[c]"] by (simp add: join_split1)

lemma contains_lower_line:
  assumes "l \<in> set (split_str s [c])" and "contains (lower l) sub"
  shows "contains (lower s) sub"
proof -
  have "sublist (lower l) (lower s)"
    unfolding lower_def using sublist_split1[OF assms(1)] by (rule map_mono_sublist)
  then show ?thesis using assms(2) sublist_trans by (auto simp: contains_sublist)
qed

lemma find_language_find:
  "find_language ls d =
     (case find (\<lambda>l. contains (lower l) ''detected language:'') ls of
        None \<Rightarrow> d
      | Some l \<Rightarrow> strip (last (split_str l '':'')))"
  by (induction ls) auto

text \<open>
  C3: if no line of the raw output contains "detected language:" (compared in lower
  case), the language is "unknown"; otherwise it is the text after the last colon of the
  first such line, trimmed, in the case the line has it.
\<close>

theorem detect_language_first_match:
  "detect_language out =
     (case find (\<lambda>l. contains (lower l) ''detected language:'') (split_str out newline) of
        None \<Rightarrow> ''unknown''
      | Some l \<Rightarrow> strip (after_last CHR '':'' l))"
proof (cases "find (\<lambda>l. contains (lower l) ''detected language:'') (split_str out newline)")
  case None
  then show ?thesis by (simp add: detect_language_def find_language_find)
next
  case (Some l)
  then have "l \<in> set (split_str out newline)" and "contains (lower l) ''detected language:''"
    by (auto simp: find_Some_iff)
  then have "contains (lower out) ''detected language:''"
    unfolding newline_def by (rule contains_lower_line)
  then show ?thesis using Some by (simp add: detect_language_def find_language_find last_split1)
qed

theorem detect_language_first_match_witness:
  "detect_language
       ''main: start\<newline>whisper_full: auto-Detected Language: EN (p = 0.97)  \<newline>detected language: fr\<newline>''
   = ''EN (p = 0.97)''
   \<and> detect_language ''main: start\<newline>hello'' = ''unknown''"
proof -
  have "(case find (\<lambda>l. contains (lower l) ''detected language:'') (split_str
       ''main: start\<newline>whisper_full: auto-Detected Language: EN (p = 0.97)  \<newline>detected language: fr\<newline>'' newline) of
           None \<Rightarrow> ''unknown''
         | Some l \<Rightarrow> strip (after_last CHR '':'' l)) = ''EN (p = 0.97)''"
    by code_simp
  moreover have "(case find (\<lambda>l. contains (lower l) ''detected language:'')
           (split_str ''main: start\<newline>hello'' newline) of
           None \<Rightarrow> ''unknown''
         | Some l \<Rightarrow> strip (after_last CHR '':'' l)) = ''unknown''"
    by code_simp
  ultimately show ?thesis
    using detect_language_first_match[of
       "''main: start\<newline>whisper_full: auto-Detected Language: EN (p = 0.97)  \<newline>detected language: fr\<newline>''"]
      detect_language_first_match[of "''main: start\<newline>hello''"]
    by simp
qed

lemma truncate_at_split: "m \<noteq> [] \<Longrightarrow> truncate_at s m = hd (split_str s m)"
  by (induction s m rule: split_str.induct) (auto split: list.splits)

lemma filter_map_keep:
  "filter (\<lambda>l. strip l \<noteq> [])
          (map (\<lambda>l. truncate_at l progress_string_marker)
             (filter (\<lambda>l. \<not> startswith (strip l) log_prefixes) ls))
   = concat (map keep_line ls)"
  using marker_nospace by (induction ls) (auto simp: keep_line_def Let_def truncate_at_split)

lemma strip_Cons_space: "isspace c \<Longrightarrow> strip (c # x) = strip x"
  by (simp add: strip_def lstrip_def)

lemma strip_lstrip_rstrip: "strip s = lstrip (rstrip s)"
  by (simp add: strip_def lstrip_rstrip)

lemma strip_snoc_space: "isspace c \<Longrightarrow> strip (x @ [c]) = strip x"
  by (simp add: strip_lstrip_rstrip rstrip_append_space allspace_def)

lemma join_Cons_Cons: "join sep ((c # k) # rest) = c # join sep (k # rest)"
  by (cases rest) auto

lemma join_snoc_append: "join sep (A @ [k @ w]) = join sep (A @ [k]) @ w"
  by (induction A) (simp_all add: join_Cons)

lemma split1_snoc_sep: "split_str (t @ [c]) [c] = split_str t [c] @ [ [] ]"
  by (induction t) (auto split: list.splits)

lemma split1_snoc_other:
  "d \<noteq> c \<Longrightarrow> split_str (t @ [d]) [c] = butlast (split_str t [c]) @ [last (split_str t [c]) @ [d] ]"
  by (induction t) (auto split: list.splits)

lemma hd_split_Cons:
  "\<not> prefix sep (c # cs) \<Longrightarrow> hd (split_str (c # cs) sep) = c # hd (split_str cs sep)"
  by (cases "split_str cs sep") auto

lemma hd_split_Cons_space:
  assumes "isspace c"
  shows "hd (split_str (c # w) progress_string_marker) = c # hd (split_str w progress_string_marker)"
proof -
  have "\<not> prefix progress_string_marker (c # w)"
    using assms by (auto simp: progress_string_marker_def prefix_Cons isspace_def)
  then show ?thesis by (rule hd_split_Cons)
qed

lemma hd_split_append: "m \<noteq> [] \<Longrightarrow> sublist m x \<Longrightarrow> hd (split_str (x @ y) m) = hd (split_str x m)"
proof (induction x m rule: split_str.induct)
  case (1 sep)
  then show ?case by simp
next
  case (2 c cs sep)
  show ?case
  proof (cases "prefix sep (c # cs)")
    case True
    then have "prefix sep ((c # cs) @ y)" by (rule prefix_prefix)
    then show ?thesis using True 2(3) by simp
  next
    case False
    then have sub: "sublist sep cs" using 2(4) by (simp add: sublist_Cons_right)
    have np: "\<not> prefix sep ((c # cs) @ y)"
    proof
      assume p: "prefix sep ((c # cs) @ y)"
      have "length sep \<le> length cs" using sub by (rule sublist_length_le)
      moreover have "prefix sep (c # cs) \<or> (\<exists>us. sep = (c # cs) @ us \<and> prefix us y)"
        using p prefix_append[of sep "c # cs" y] by simp
      ultimately have "prefix sep (c # cs)" by auto
      then show False using False by simp
    qed
    have "hd (split_str (cs @ y) sep) = hd (split_str cs sep)" using 2 False sub by simp
    then show ?thesis using False np hd_split_Cons[of sep c cs] hd_split_Cons[of sep c "cs @ y"]
      by simp
  qed
qed

lemma sublist_snoc_space:
  assumes "nospace m" and "isspace c" and "sublist m (x @ [c])"
  shows "sublist m x"
proof -
  have "c \<notin> set m" using assms(1,2) by (auto simp: nospace_def list_all_iff)
  then have "\<not> suffix m (x @ [c]) \<or> m = []" by auto
  then show ?thesis using assms(3) by (auto simp: sublist_snoc)
qed

lemma keep_line_Nil [simp]: "keep_line [] = []"
  by (simp add: keep_line_def strip_def lstrip_def rstrip_def startswith_def log_prefixes_def)

lemma keep_line_Cons_space:
  "isspace c \<Longrightarrow> keep_line (c # w) = map ((#) c) (keep_line w)"
  by (simp add: keep_line_def Let_def strip_Cons_space hd_split_Cons_space del: split_str.simps)

lemma keep_line_cases: "keep_line w = [] \<or> (\<exists>k. keep_line w = [k])"
  by (simp add: keep_line_def Let_def)

lemma keep_line_snoc_space:
  assumes "isspace c"
  shows "keep_line (x @ [c]) = keep_line x \<or>
         (\<exists>k. keep_line x = [k] \<and> keep_line (x @ [c]) = [k @ [c] ])"
proof (cases "sublist progress_string_marker x")
  case True
  then have "hd (split_str (x @ [c]) progress_string_marker) = hd (split_str x progress_string_marker)"
    using marker_nospace by (intro hd_split_append) auto
  then show ?thesis using assms by (simp add: keep_line_def strip_snoc_space)
next
  case False
  then have "\<not> sublist progress_string_marker (x @ [c])"
    using sublist_snoc_space[OF _ assms] marker_nospace by blast
  then show ?thesis using False assms
    by (simp add: keep_line_def Let_def split_str_absent strip_snoc_space)
qed

lemma norm_of_Cons_space:
  assumes "isspace c"
  shows "norm_of (c # t) = norm_of t"
proof (cases "c = CHR 0x0A")
  case True
  then show ?thesis by (simp add: norm_of_def newline_def)
next
  case False
  obtain w ws where sp: "split_str t newline = w # ws"
    by (cases "split_str t newline") auto
  have sp': "split_str (c # t) newline = (c # w) # ws"
    using False sp by (simp add: newline_def)
  show ?thesis
  proof (cases "keep_line w")
    case Nil
    then show ?thesis using assms sp sp' by (simp add: norm_of_def keep_line_Cons_space)
  next
    case (Cons k ks)
    then have ks: "ks = []" using keep_line_cases[of w] by auto
    show ?thesis using assms sp sp' Cons ks
      by (simp add: norm_of_def keep_line_Cons_space join_Cons_Cons strip_Cons_space)
  qed
qed

lemma norm_of_snoc_space:
  assumes "isspace c"
  shows "norm_of (t @ [c]) = norm_of t"
proof (cases "c = CHR 0x0A")
  case True
  then show ?thesis by (simp add: norm_of_def newline_def split1_snoc_sep)
next
  case False
  define L where "L = split_str t newline"
  have Lne: "L \<noteq> []" by (simp add: L_def)
  then have L: "L = butlast L @ [last L]" by simp
  have sp': "split_str (t @ [c]) newline = butlast L @ [last L @ [c] ]"
    using False by (simp add: newline_def split1_snoc_other L_def)
  have cm: "concat (map keep_line L) = concat (map keep_line (butlast L)) @ keep_line (last L)"
    by (subst L) simp
  from keep_line_snoc_space[OF assms, of "last L"] show ?thesis
  proof
    assume "keep_line (last L @ [c]) = keep_line (last L)"
    then show ?thesis using cm sp' by (simp add: norm_of_def flip: L_def)
  next
    assume "\<exists>k. keep_line (last L) = [k] \<and> keep_line (last L @ [c]) = [k @ [c] ]"
    then obtain k where k: "keep_line (last L) = [k]" "keep_line (last L @ [c]) = [k @ [c] ]"
      by blast
    show ?thesis using cm sp' k assms
      by (simp add: norm_of_def join_snoc_append strip_snoc_space flip: L_def)
  qed
qed

lemma norm_of_prepend_space: "allspace w \<Longrightarrow> norm_of (w @ t) = norm_of t"
  by (induction w) (simp_all add: allspace_def norm_of_Cons_space)

lemma norm_of_append_space: "allspace w \<Longrightarrow> norm_of (t @ w) = norm_of t"
proof (induction w rule: rev_induct)
  case Nil
  then show ?case by simp
next
  case (snoc c w)
  then have "norm_of ((t @ w) @ [c]) = norm_of (t @ w)"
    by (intro norm_of_snoc_space) (simp add: allspace_def)
  then show ?case using snoc by simp
qed

lemma norm_of_strip: "norm_of (strip s) = norm_of s"
proof -
  obtain w where w: "allspace w" "s = w @ lstrip s" using lstrip_decomp by blast
  obtain v where v: "allspace v" "lstrip s = rstrip (lstrip s) @ v" using rstrip_decomp by blast
  have "norm_of s = norm_of (lstrip s)" using norm_of_prepend_space[OF w(1), of "lstrip s"] w(2) by simp
  also have "\<dots> = norm_of (rstrip (lstrip s))"
    using norm_of_append_space[OF v(1), of "rstrip (lstrip s)"] v(2) by simp
  finally show ?thesis by (simp add: strip_def)
qed

text \<open>
  C2, as amended: the transcript text of a raw output is obtained from its lines by
  (a) dropping each line whose trimmed form starts with a log prefix, (b) cutting each
  other line at the first occurrence of the progress marker, (c) keeping the cut line if
  it is not blank, then joining the kept lines with line breaks, in order, and trimming.
\<close>

theorem normalize_text_trimmed_prefix:
  "normalize_text out = normalize_trimmed_prefix (split_str out newline)"
  using norm_of_strip[of out]
  by (simp add: normalize_text_def normalize_trimmed_prefix_def filter_map_keep clean_lines_keep
      norm_of_def)

theorem normalize_text_trimmed_prefix_witness:
  "normalize_text (join newline [''a'', ''  main: x'', ''b whisper_print_progress_callback''])
   = ''a\<newline>b''"
proof -
  have "normalize_trimmed_prefix (split_str
          (join newline [''a'', ''  main: x'', ''b whisper_print_progress_callback'']) newline)
        = ''a\<newline>b''"
    by code_simp
  then show ?thesis
    using normalize_text_trimmed_prefix[of
       "join newline [''a'', ''  main: x'', ''b whisper_print_progress_callback'']"]
    by simp
qed

text \<open>
  C2 as stated fails: a line with white space before a log prefix does not start with the
  prefix, so the stated algorithm keeps it, and transcribe_file drops it.
\<close>

theorem normalize_spec_counterexample:
  "normalize_text (join newline [''a'', ''  main: x'', ''b''])
   \<noteq> normalize_spec [''a'', ''  main: x'', ''b'']"
  by code_simp

section \<open>Validation, the loop over the files, and the writers\<close>

lemma validate_loop_valid:
  "file_valid env f \<Longrightarrow> validate_loop env (f # fs) acc = validate_loop env fs (acc @ [Path f])"
  by (simp add: file_valid_def Let_def)

lemma validate_loop_invalid:
  "\<not> file_valid env f \<Longrightarrow> validate_loop env (f # fs) acc = Inl (validation_error env f)"
  by (auto simp: file_valid_def validation_error_def Let_def)

lemma validate_loop_find:
  "validate_loop env fs acc =
     (case find (\<lambda>f. \<not> file_valid env f) fs of
        Some f \<Rightarrow> Inl (validation_error env f)
      | None \<Rightarrow> Inr (acc @ map Path fs))"
proof (induction fs arbitrary: acc)
  case Nil
  then show ?case by simp
next
  case (Cons f fs)
  show ?case
  proof (cases "file_valid env f")
    case True
    then show ?thesis using Cons[of "acc @ [Path f]"] by (simp add: validate_loop_valid del: validate_loop.simps split: option.splits)
  next
    case False
    then show ?thesis by (simp add: validate_loop_invalid del: validate_loop.simps)
  qed
qed

lemma validate_all_valid:
  "\<forall>f\<in>set fs. file_valid env f \<Longrightarrow> validate_input_files env fs = Inr (map Path fs)"
  by (simp add: validate_input_files_def validate_loop_find find_None_iff[THEN iffD2]
      split: option.splits)

lemma suffix_nonempty_name: "path_suffix p \<noteq> [] \<Longrightarrow> path_name p \<noteq> []"
  by (auto simp: path_suffix_def Let_def split: if_splits)

lemma file_valid_name: "file_valid env f \<Longrightarrow> path_name (Path f) \<noteq> []"
proof -
  assume "file_valid env f"
  then have "lower (path_suffix (Path f)) \<in> set SUPPORTED_EXTENSIONS"
    by (simp add: file_valid_def Let_def)
  then have "lower (path_suffix (Path f)) \<noteq> []"
    by (auto simp: SUPPORTED_EXTENSIONS_def)
  then have "path_suffix (Path f) \<noteq> []" by (auto simp: lower_def)
  then show ?thesis by (rule suffix_nonempty_name)
qed

lemma generate_output_path_total:
  "path_name p \<noteq> [] \<Longrightarrow> \<exists>out. generate_output_path p c m ts = Inr out"
  by (simp add: generate_output_path_def with_suffix_def Let_def)


lemma try_body_error:
  assumes "path_name p \<noteq> []" and "try_body env config verbose p = Inl e"
  shows "transcribe_file env p (include_timestamps config) verbose = Inl e"
proof -
  obtain out where "generate_output_path p
      (if \<not> batch_mode config then custom_output config else None)
      (Some (model_name config)) (include_timestamps config) = Inr out"
    using generate_output_path_total[OF assms(1)] by blast
  then show ?thesis using assms(2) by (auto simp: try_body_def split: sum.splits)
qed











lemma process_loop_first_failure:
  assumes "\<not> batch_mode config"
    and "\<forall>q\<in>set pre. path_name q \<noteq> []" and "path_name p \<noteq> []"
    and "\<forall>q\<in>set pre. \<not> isl (transcribe_file env q (include_timestamps config) verbose)"
    and "transcribe_file env p (include_timestamps config) verbose = Inl e"
  shows "process_loop env config verbose (pre @ p # post) results tr
         = (Inl e, \<lparr>attempted = attempted tr @ pre @ [p],
                    err_lines = err_lines tr
                      @ (case e of TranscriptionError m \<Rightarrow> [''Error: '' @ m] | _ \<Rightarrow> [])\<rparr>)"
  using assms(2,4)
proof (induction pre arbitrary: results tr)
  case Nil
  have "try_body env config verbose p = Inl e" using assms(5) by (simp add: try_body_def)
  then show ?case using assms(1) by (cases e) simp_all
next
  case (Cons q pre)
  then have nm: "path_name q \<noteq> []"
    and ok: "\<not> isl (transcribe_file env q (include_timestamps config) verbose)" by simp_all
  have "\<not> isl (try_body env config verbose q)"
  proof (cases "try_body env config verbose q")
    case (Inl e')
    then show ?thesis using try_body_error[OF nm Inl] ok by simp
  next
    case (Inr r)
    then show ?thesis by simp
  qed
  then obtain r where r: "try_body env config verbose q = Inr r"
    by (cases "try_body env config verbose q") auto
  show ?case using r Cons by simp
qed

text \<open>
  C6: outside batch mode the first transcription failure is raised to the caller (a
  TranscriptionError after being printed, any other exception as it is); the files after
  the failing one are not handed to transcribe_file and no result is returned. In verbose
  mode a \<open>stat\<close> that raises while the total size is computed ends the run before the
  loop, with no file handed to transcribe_file at all.
\<close>

theorem non_batch_first_failure_aborts:
  assumes "\<not> batch_mode config" and "\<forall>f\<in>set input_files. file_valid env f"
    and "map Path input_files = pre @ p # post"
    and "\<forall>q\<in>set pre. \<not> isl (transcribe_file env q (include_timestamps config) verbose)"
    and "transcribe_file env p (include_timestamps config) verbose = Inl e"
  shows "process_files env config verbose input_files
         = (case (if verbose then total_size_error env (map Path input_files) else None) of
              Some e' \<Rightarrow> (Inl e', \<lparr>attempted = [], err_lines = []\<rparr>)
            | None \<Rightarrow>
                (Inl e, \<lparr>attempted = pre @ [p],
                          err_lines = (case e of TranscriptionError m \<Rightarrow> [''Error: '' @ m]
                                       | _ \<Rightarrow> [])\<rparr>))"
proof -
  have nm: "\<forall>q\<in>set (pre @ p # post). path_name q \<noteq> []"
    using assms(2) file_valid_name unfolding assms(3)[symmetric] by auto
  then have 1: "\<forall>q\<in>set pre. path_name q \<noteq> []" and 2: "path_name p \<noteq> []" by simp_all
  show ?thesis
    using process_loop_first_failure[OF assms(1) 1 2 assms(4,5), of post "[]" no_trace]
      validate_all_valid[OF assms(2)] assms(3)
    by (cases verbose) (simp_all add: process_files_def no_trace_def split: option.splits)
qed

theorem non_batch_first_failure_aborts_witness:
  "process_files demo_env (demo_config False) False [''b.mp3'', ''a.mp3'', ''c.mp3'']
     = (Inl (TranscriptionError ''whisper.cpp failed with return code 1:\<newline>bad audio''),
        \<lparr>attempted = [Path ''b.mp3''],
         err_lines = [''Error: whisper.cpp failed with return code 1:\<newline>bad audio'']\<rparr>)"
proof -
  have b: "\<not> batch_mode (demo_config False)" by (simp add: demo_config_def)
  have v: "\<forall>f\<in>set [''b.mp3'', ''a.mp3'', ''c.mp3'']. file_valid demo_env f" by code_simp
  have m: "map Path [''b.mp3'', ''a.mp3'', ''c.mp3'']
           = [] @ Path ''b.mp3'' # [Path ''a.mp3'', Path ''c.mp3'']" by simp
  have pre: "\<forall>q\<in>set []. \<not> isl (transcribe_file demo_env q
               (include_timestamps (demo_config False)) False)" by simp
  have e: "transcribe_file demo_env (Path ''b.mp3'') (include_timestamps (demo_config False)) False
           = Inl (TranscriptionError ''whisper.cpp failed with return code 1:\<newline>bad audio'')"
    by code_simp
  show ?thesis
    using non_batch_first_failure_aborts[OF b v m pre e] by simp
qed

text \<open>
  C10: when some input file fails validation, the run raises the validation error of the
  first such file before any file is transcribed, whatever the configuration, batch mode
  included; nothing is printed to standard error.
\<close>

theorem validation_aborts_before_processing:
  assumes "find (\<lambda>f. \<not> file_valid env f) input_files = Some f"
  shows "process_files env config verbose input_files
         = (Inl (validation_error env f), \<lparr>attempted = [], err_lines = []\<rparr>)"
  using assms by (simp add: process_files_def validate_input_files_def validate_loop_find no_trace_def)

theorem validation_aborts_before_processing_witness:
  "find (\<lambda>f. \<not> file_valid demo_env f) [''a.mp3'', ''missing.mp3'', ''c.mp3''] = Some ''missing.mp3''
   \<and> process_files demo_env (demo_config True) False [''a.mp3'', ''missing.mp3'', ''c.mp3'']
     = (Inl (FileNotFoundError ''File not found: missing.mp3''),
        \<lparr>attempted = [], err_lines = []\<rparr>)"
proof -
  have h: "find (\<lambda>f. \<not> file_valid demo_env f) [''a.mp3'', ''missing.mp3'', ''c.mp3'']
           = Some ''missing.mp3''"
    by code_simp
  have e: "validation_error demo_env ''missing.mp3''
           = FileNotFoundError ''File not found: missing.mp3''"
    by code_simp
  show ?thesis
    using h validation_aborts_before_processing[OF h, of "demo_config True" False] e by simp
qed

lemma join_map_Cons:
  "join sep (map g (r # rs)) = g r @ (if rs \<noteq> [] then sep else []) @ join sep (map g rs)"
  by (cases rs) simp_all

lemma write_entries_join:
  "n = i + int (length rs) \<Longrightarrow> write_entries rs i n f = f @ join divider (map entry rs)"
proof (induction rs arbitrary: i f)
  case Nil
  then show ?case by simp
next
  case (Cons r rs)
  have c: "i < n - 1 \<longleftrightarrow> rs \<noteq> []" using Cons.prems by auto
  have "write_entries (r # rs) i n f
        = write_entries rs (i + 1) n (f @ entry r @ (if rs \<noteq> [] then divider else []))"
    by (simp add: entry_def c)
  also have "\<dots> = (f @ entry r @ (if rs \<noteq> [] then divider else []))
                   @ join divider (map entry rs)"
    using Cons.prems by (intro Cons.IH) simp
  also have "\<dots> = f @ join divider (map entry (r # rs))"
    unfolding join_map_Cons by simp
  finally show ?case .
qed

text \<open>
  C7: the concatenated file holds, in input order, for each result the header line with
  the name of its input file and its text, with the divider between consecutive entries
  and none after the last.
\<close>

theorem concatenated_file_content:
  assumes "open_error env (Path out) = None"
  shows "save_concatenated_results env out results d
         = (Inr (),
            \<lparr>files = (files d)(str_path (Path out) \<mapsto> join divider (map entry results)),
             printed = printed d @ [''Saved concatenated results: '' @ str_path (Path out)]\<rparr>)"
  using assms by (simp add: save_concatenated_results_def write_entries_join Let_def)

theorem concatenated_file_content_witness:
  "open_error demo_env (Path ''all.txt'') = None
   \<and> files (snd (save_concatenated_results demo_env ''all.txt''
        [\<lparr>r_text = ''Hello'', r_language = ''en'', r_input_file = Path ''a.mp3'',
          r_output_file = Path ''a-base.txt''\<rparr>,
         \<lparr>r_text = ''World'', r_language = ''en'', r_input_file = Path ''b.mp3'',
          r_output_file = Path ''b-base.txt''\<rparr>]
        \<lparr>files = Map.empty, printed = []\<rparr>)) ''all.txt''
     = Some (''=== a.mp3 ===\<newline>Hello\<newline>''
             @ ''\<newline>==================================================\<newline>\<newline>''
             @ ''=== b.mp3 ===\<newline>World\<newline>'')"
proof -
  have h: "open_error demo_env (Path ''all.txt'') = None" by (simp add: demo_env_def)
  have p: "str_path (Path ''all.txt'') = ''all.txt''" by code_simp
  have c: "join divider (map entry
        [\<lparr>r_text = ''Hello'', r_language = ''en'', r_input_file = Path ''a.mp3'',
          r_output_file = Path ''a-base.txt''\<rparr>,
         \<lparr>r_text = ''World'', r_language = ''en'', r_input_file = Path ''b.mp3'',
          r_output_file = Path ''b-base.txt''\<rparr>])
     = ''=== a.mp3 ===\<newline>Hello\<newline>''
             @ ''\<newline>==================================================\<newline>\<newline>''
             @ ''=== b.mp3 ===\<newline>World\<newline>''"
    by code_simp
  show ?thesis using h concatenated_file_content[OF h] p c by simp
qed

lemma path_name_stem_suffix: "path_name p = path_stem p @ path_suffix p"
  by (simp add: path_stem_def path_suffix_def Let_def)

lemma rfind_at:
  assumes "c \<in> set s"
  shows "drop (nat (rfind s c)) s = c # after_last c s"
proof -
  define t where "t = takeWhile (\<lambda>x. x \<noteq> c) (rev s)"
  define d where "d = dropWhile (\<lambda>x. x \<noteq> c) (rev s)"
  have rs: "rev s = t @ d" by (simp add: t_def d_def)
  have "d \<noteq> []" using assms by (auto simp: d_def dropWhile_eq_Nil_conv)
  moreover have "hd d = c" if "d \<noteq> []"
    using that hd_dropWhile[of "\<lambda>x. x \<noteq> c" "rev s"] by (auto simp: d_def)
  ultimately obtain d' where d: "d = c # d'" by (cases d) auto
  have "rev (rev s) = rev (t @ c # d')" using rs d by simp
  then have s: "s = rev d' @ c # rev t" by simp
  have "length s = length d' + 1 + length t" using s by simp
  then have "nat (rfind s c) = length d'"
    using assms by (simp add: rfind_def t_def)
  then have "drop (nat (rfind s c)) s = c # rev t" using s by simp
  then show ?thesis by (simp add: after_last_def t_def)
qed

lemma after_last_free: "c \<notin> set (after_last c s)"
  by (auto simp: after_last_def dest: set_takeWhileD)

lemma path_suffix_shape:
  assumes "path_suffix p \<noteq> []"
  shows "path_stem p \<noteq> [] \<and> hd (path_suffix p) = CHR ''.''
         \<and> tl (path_suffix p) \<noteq> [] \<and> CHR ''.'' \<notin> set (tl (path_suffix p))"
proof -
  define n where "n = path_name p"
  define i where "i = rfind n CHR ''.''"
  have c: "0 < i \<and> i < int (length n) - 1"
    using assms by (auto simp: path_suffix_def Let_def n_def i_def split: if_splits)
  then have m: "CHR ''.'' \<in> set n" by (auto simp: i_def rfind_def split: if_splits)
  have sf: "path_suffix p = drop (nat i) n"
    using c by (simp add: path_suffix_def Let_def n_def i_def)
  have st: "path_stem p = take (nat i) n"
    using c by (simp add: path_stem_def Let_def n_def i_def)
  have sh: "path_suffix p = CHR ''.'' # after_last CHR ''.'' n"
    unfolding sf i_def using m by (rule rfind_at)
  have "length (path_suffix p) = length n - nat i" by (simp add: sf)
  then have "length (path_suffix p) > 1" using c by auto
  then have "tl (path_suffix p) \<noteq> []" by (cases "path_suffix p") auto
  moreover have "path_stem p \<noteq> []" using c st by auto
  ultimately show ?thesis using sh after_last_free[of "CHR ''.''" n] by simp
qed

lemma Path_single:
  assumes "n \<noteq> []" and "n \<noteq> ''.''" and "CHR ''/'' \<notin> set n"
  shows "Path n = \<lparr>anchor = [], parts = [n]\<rparr>"
proof -
  have "split_str n ''/'' = [n]" using assms(3) by (rule split1_none)
  moreover have "\<not> prefix ''/'' n" using assms(1,3) by (cases n) auto
  ultimately show ?thesis using assms(1,2) by (simp add: Path_def)
qed

lemma truediv_single:
  assumes "n \<noteq> []" and "n \<noteq> ''.''" and "CHR ''/'' \<notin> set n"
  shows "truediv (path_parent p) n = sibling p n"
  by (simp add: truediv_def Path_single[OF assms] path_parent_def sibling_def)

lemma stem_no_slash: "CHR ''/'' \<notin> set (path_name p) \<Longrightarrow> CHR ''/'' \<notin> set (path_stem p)"
  by (auto simp: path_stem_def Let_def dest: in_set_takeD)

lemma derived_name:
  assumes "CHR ''/'' \<notin> set (path_name p)" and "CHR ''/'' \<notin> set x"
  shows "truediv (path_parent p) (path_stem p @ x @ ''.txt'')
         = sibling p (path_stem p @ x @ ''.txt'')"
proof (rule truediv_single)
  show "path_stem p @ x @ ''.txt'' \<noteq> []" by simp
  have "length (path_stem p @ x @ ''.txt'') \<ge> 4" by simp
  then show "path_stem p @ x @ ''.txt'' \<noteq> ''.''"
    by (auto dest: arg_cong[where f = length])
  show "CHR ''/'' \<notin> set (path_stem p @ x @ ''.txt'')"
    using assms stem_no_slash[OF assms(1)] by simp
qed

lemma Path_parts_no_slash: "\<forall>x\<in>set (parts (Path s)). CHR ''/'' \<notin> set x"
  using split1_lines[of s "CHR ''/''"] by (simp add: Path_def)

lemma Path_name_no_slash: "CHR ''/'' \<notin> set (path_name (Path s))"
  using Path_parts_no_slash[of s] by (simp add: path_name_def)

lemma speech_mp3_stem:
  "path_stem \<lparr>anchor = a, parts = dir @ [''speech.mp3'']\<rparr> = ''speech''"
  by (simp add: path_stem_def path_name_def rfind_def)

text \<open>
  C9: for every input path \<open>p\<close> (its name free of slashes, as the name of every parsed
  path is) and without an override, the output is the file in the directory of \<open>p\<close> named
  by the stem of \<open>p\<close>, then \<open>-\<close> and the model name if there is one, then \<open>-timestamps\<close> if
  timestamps are requested, then \<open>.txt\<close>; the stem is the name without its last
  extension. So \<open>speech.mp3\<close> with model \<open>base\<close> and timestamps maps to
  \<open>speech-base-timestamps.txt\<close> in the same directory, and without model and timestamps
  to \<open>speech.txt\<close>. A non-empty custom output path is returned as it is, whatever the
  input path, the model and the timestamps flag.
\<close>

theorem generate_output_path_naming:
  assumes "CHR ''/'' \<notin> set (path_name p)" and "CHR ''/'' \<notin> set model" and "model \<noteq> []"
    and "\<not> truthy m" and "c \<noteq> []"
  shows "generate_output_path p None (Some model) True
           = Inr (sibling p (path_stem p @ ''-'' @ model @ ''-timestamps.txt''))
       \<and> generate_output_path p None (Some model) False
           = Inr (sibling p (path_stem p @ ''-'' @ model @ ''.txt''))
       \<and> generate_output_path p None m True
           = Inr (sibling p (path_stem p @ ''-timestamps.txt''))
       \<and> (path_name p \<noteq> [] \<longrightarrow>
            generate_output_path p None m False = Inr (sibling p (path_stem p @ ''.txt'')))
       \<and> generate_output_path q (Some c) any_model ts = Inr (Path c)
       \<and> path_name p = path_stem p @ path_suffix p
       \<and> (path_suffix p \<noteq> [] \<longrightarrow>
            path_stem p \<noteq> [] \<and> hd (path_suffix p) = CHR ''.''
            \<and> tl (path_suffix p) \<noteq> [] \<and> CHR ''.'' \<notin> set (tl (path_suffix p)))
       \<and> CHR ''/'' \<notin> set (path_name (Path s))
       \<and> generate_output_path \<lparr>anchor = a, parts = dir @ [''speech.mp3'']\<rparr>
            None (Some ''base'') True
           = Inr \<lparr>anchor = a, parts = dir @ [''speech-base-timestamps.txt'']\<rparr>
       \<and> generate_output_path \<lparr>anchor = a, parts = dir @ [''speech.mp3'']\<rparr> None m False
           = Inr \<lparr>anchor = a, parts = dir @ [''speech.txt'']\<rparr>"
proof -
  have 1: "generate_output_path p None (Some model) True
           = Inr (sibling p (path_stem p @ ''-'' @ model @ ''-timestamps.txt''))"
    using derived_name[OF assms(1), of "''-'' @ model @ ''-timestamps''"] assms(2,3)
    by (simp add: generate_output_path_def)
  have 2: "generate_output_path p None (Some model) False
           = Inr (sibling p (path_stem p @ ''-'' @ model @ ''.txt''))"
    using derived_name[OF assms(1), of "''-'' @ model"] assms(2,3)
    by (simp add: generate_output_path_def)
  have 3: "generate_output_path p None m True
           = Inr (sibling p (path_stem p @ ''-timestamps.txt''))"
    using derived_name[OF assms(1), of "''-timestamps''"] assms(4)
    by (simp add: generate_output_path_def)
  have 4: "path_name p \<noteq> [] \<longrightarrow>
           generate_output_path p None m False = Inr (sibling p (path_stem p @ ''.txt''))"
    using assms(4) by (simp add: generate_output_path_def with_suffix_def sibling_def)
  have 5: "generate_output_path q (Some c) any_model ts = Inr (Path c)"
    using assms(5) by (simp add: generate_output_path_def)
  have 6: "path_name p = path_stem p @ path_suffix p" by (rule path_name_stem_suffix)
  have 7: "path_suffix p \<noteq> [] \<longrightarrow>
           path_stem p \<noteq> [] \<and> hd (path_suffix p) = CHR ''.''
           \<and> tl (path_suffix p) \<noteq> [] \<and> CHR ''.'' \<notin> set (tl (path_suffix p))"
    using path_suffix_shape by blast
  have 8: "CHR ''/'' \<notin> set (path_name (Path s))" by (rule Path_name_no_slash)
  have P: "Path ''speech-base-timestamps.txt''
           = \<lparr>anchor = [], parts = [''speech-base-timestamps.txt'']\<rparr>"
    by (simp add: Path_def)
  have 9: "generate_output_path \<lparr>anchor = a, parts = dir @ [''speech.mp3'']\<rparr>
            None (Some ''base'') True
           = Inr \<lparr>anchor = a, parts = dir @ [''speech-base-timestamps.txt'']\<rparr>"
    by (simp add: generate_output_path_def speech_mp3_stem truediv_def path_parent_def P)
  have 10: "generate_output_path \<lparr>anchor = a, parts = dir @ [''speech.mp3'']\<rparr> None m False
           = Inr \<lparr>anchor = a, parts = dir @ [''speech.txt'']\<rparr>"
    using assms(4)
    by (simp add: generate_output_path_def with_suffix_def speech_mp3_stem path_name_def)
  show ?thesis using 1 2 3 4 5 6 7 8 9 10 by blast
qed

theorem generate_output_path_naming_witness:
  "generate_output_path (Path ''talks/interview.final.wav'') None (Some ''small'') True
     = Inr (Path ''talks/interview.final-small-timestamps.txt'')
   \<and> generate_output_path (Path ''talks/interview.final.wav'') None (Some ''small'') False
     = Inr (Path ''talks/interview.final-small.txt'')
   \<and> generate_output_path (Path ''talks/interview.final.wav'') None None False
     = Inr (Path ''talks/interview.final.txt'')
   \<and> generate_output_path (Path ''talks/speech.mp3'') (Some ''out/notes.txt'') (Some ''base'') True
     = Inr (Path ''out/notes.txt'')"
proof -
  have h1: "CHR ''/'' \<notin> set (path_name (Path ''talks/interview.final.wav''))" by code_simp
  have h2: "CHR ''/'' \<notin> set ''small''" and h3: "''small'' \<noteq> []" by simp_all
  have h4: "\<not> truthy None" and h5: "''out/notes.txt'' \<noteq> []" by simp_all
  have n: "path_name (Path ''talks/interview.final.wav'') \<noteq> []" by code_simp
  have a: "sibling (Path ''talks/interview.final.wav'')
             (path_stem (Path ''talks/interview.final.wav'') @ ''-'' @ ''small''
              @ ''-timestamps.txt'')
           = Path ''talks/interview.final-small-timestamps.txt''"
    by code_simp
  have b: "sibling (Path ''talks/interview.final.wav'')
             (path_stem (Path ''talks/interview.final.wav'') @ ''-'' @ ''small'' @ ''.txt'')
           = Path ''talks/interview.final-small.txt''"
    by code_simp
  have c: "sibling (Path ''talks/interview.final.wav'')
             (path_stem (Path ''talks/interview.final.wav'') @ ''.txt'')
           = Path ''talks/interview.final.txt''"
    by code_simp
  show ?thesis
    using generate_output_path_naming[OF h1 h2 h3 h4 h5,
        where q = "Path ''talks/speech.mp3''" and any_model = "Some ''base''" and ts = True]
      n a b c
    by simp
qed

text \<open>
  C8 at a failing input: in batch mode with the output \<open>all.txt\<close>, a file whose transcript
  is empty still gets its header and an empty line in the concatenated file, and no
  warning is printed.
\<close>

theorem concatenated_mode_writes_empty_transcript:
  "process_files demo_env (demo_config True) False [''silence.mp3'']
     = (Inr [\<lparr>r_text = [], r_language = ''unknown'', r_input_file = Path ''silence.mp3'',
              r_output_file = Path ''silence-base.txt''\<rparr>],
        \<lparr>attempted = [Path ''silence.mp3''], err_lines = []\<rparr>)
   \<and> fst (save_results demo_env (demo_config True)
        [\<lparr>r_text = [], r_language = ''unknown'', r_input_file = Path ''silence.mp3'',
          r_output_file = Path ''silence-base.txt''\<rparr>]
        \<lparr>files = Map.empty, printed = []\<rparr>) = Inr ()
   \<and> files (snd (save_results demo_env (demo_config True)
        [\<lparr>r_text = [], r_language = ''unknown'', r_input_file = Path ''silence.mp3'',
          r_output_file = Path ''silence-base.txt''\<rparr>]
        \<lparr>files = Map.empty, printed = []\<rparr>)) ''all.txt''
     = Some ''=== silence.mp3 ===\<newline>\<newline>''
   \<and> printed (snd (save_results demo_env (demo_config True)
        [\<lparr>r_text = [], r_language = ''unknown'', r_input_file = Path ''silence.mp3'',
          r_output_file = Path ''silence-base.txt''\<rparr>]
        \<lparr>files = Map.empty, printed = []\<rparr>))
     = [''Saved concatenated results: all.txt'']"
  by code_simp

end
